theory Spec2Isabelle
  imports Main "HOL-Library.Sublist" "HOL-Library.Multiset"
begin

text \<open>
  The shift service (\<open>claim\<close>, \<open>cancel\<close>) and the reporting script
  (\<open>fetchAllWorkplaces\<close>, \<open>fetchAllShifts\<close>, \<open>getTopWorkplaces\<close>), embedded as
  functions: the table of shifts is passed in and handed back, an exception or a process
  exit is a value, and every loop is a recursive function.
\<close>

section \<open>Shift lifecycle: \<open>ShiftsService.claim\<close> and \<open>ShiftsService.cancel\<close>\<close>

text \<open>
  The persisted shift, as far as the service reads and writes it: its identifier, the
  nullable worker reference and the nullable cancellation time. Every other column of the
  row lives in the record's extension, which neither operation touches.
\<close>

record ShiftRow =
  row_id :: int
  workerId :: "int option"
  cancelledAt :: "nat option"

text \<open>The two exceptions of the service, each with the message it is thrown with.\<close>

datatype message =
    NotFound int          \<comment> \<open>\<open>Shift ID ${id} not found.\<close>\<close>
  | AlreadyClaimed int    \<comment> \<open>\<open>Shift ID ${id} is already claimed.\<close>\<close>
  | NotClaimed int        \<comment> \<open>\<open>Shift ID ${id} is not claimed.\<close>\<close>
  | RecordToUpdateNotFound int

datatype exception =
    NotFoundException message
  | BadRequestException message
  | PrismaClientKnownRequestError message

type_synonym 'm table = "int \<rightharpoonup> 'm ShiftRow_scheme"

text \<open>
  Modelled from the spec: the persistence collaborator behind \<open>this.prisma.shift\<close> is
  not part of the sources. Its lookup is a point lookup by identifier that returns the
  full record or an absent-value signal.
\<close>

definition findUnique :: "'m table \<Rightarrow> int \<Rightarrow> 'm ShiftRow_scheme option" where
  "findUnique db i = db i"

text \<open>
  Modelled from the spec: the update of the same collaborator sets a subset of the fields
  of the record with the given identifier and returns the updated record; it fails if the
  identifier does not exist.
\<close>

definition update ::
  "'m table \<Rightarrow> int \<Rightarrow> ('m ShiftRow_scheme \<Rightarrow> 'm ShiftRow_scheme) \<Rightarrow>
     (exception + 'm ShiftRow_scheme) \<times> 'm table" where
  "update db i upd =
     (case db i of
        None \<Rightarrow> (Inl (PrismaClientKnownRequestError (RecordToUpdateNotFound i)), db)
      | Some row \<Rightarrow> (Inr (upd row), db(i \<mapsto> upd row)))"

text \<open>
  JavaScript truthiness of a nullable number, as \<open>if (shift.workerId)\<close> reads it:
  \<open>null\<close> is falsy, and so is the number \<open>0\<close>.
\<close>

fun truthy :: "int option \<Rightarrow> bool" where
  "truthy None = False"
| "truthy (Some n) = (n \<noteq> 0)"

text \<open>
  Both operations take the table and return the outcome together with the table after the
  call; a thrown exception is \<open>Inl\<close> and leaves the table as it was found.
\<close>

definition claim ::
  "'m table \<Rightarrow> int \<Rightarrow> int \<Rightarrow> (exception + 'm ShiftRow_scheme) \<times> 'm table" where
  "claim db i w =
     (case findUnique db i of
        None \<Rightarrow> (Inl (NotFoundException (NotFound i)), db)
      | Some shift \<Rightarrow>
          if truthy (workerId shift)
          then (Inl (BadRequestException (AlreadyClaimed i)), db)
          else update db i (\<lambda>row. row\<lparr>workerId := Some w, cancelledAt := None\<rparr>))"

text \<open>\<open>now\<close> is the value of \<open>new Date()\<close> at the call.\<close>

definition cancel ::
  "nat \<Rightarrow> 'm table \<Rightarrow> int \<Rightarrow> (exception + 'm ShiftRow_scheme) \<times> 'm table" where
  "cancel now db i =
     (case findUnique db i of
        None \<Rightarrow> (Inl (NotFoundException (NotFound i)), db)
      | Some shift \<Rightarrow>
          if \<not> truthy (workerId shift)
          then (Inl (BadRequestException (NotClaimed i)), db)
          else update db i (\<lambda>row. row\<lparr>cancelledAt := Some now, workerId := None\<rparr>))"

text \<open>
  The round trip \<open>claim(id, w)\<close>, \<open>cancel(id)\<close>, \<open>claim(id, w2)\<close>: each call runs on
  the table the call before it left, and the first exception ends the sequence.
\<close>

definition claim_cancel_claim ::
  "nat \<Rightarrow> 'm table \<Rightarrow> int \<Rightarrow> int \<Rightarrow> int \<Rightarrow> (exception + 'm ShiftRow_scheme) \<times> 'm table" where
  "claim_cancel_claim now db i w w2 =
     (case claim db i w of
        (Inl e, db1) \<Rightarrow> (Inl e, db1)
      | (Inr claimed, db1) \<Rightarrow>
          (case cancel now db1 i of
             (Inl e, db2) \<Rightarrow> (Inl e, db2)
           | (Inr cancelled, db2) \<Rightarrow> claim db2 i w2))"

section \<open>Pagination traversal: \<open>fetchAllShifts\<close> and \<open>fetchAllWorkplaces\<close>\<close>

text \<open>
  What one \<open>axios.get\<close> can come back with, as far as the two loops look at it:
  \<^item> \<open>Rejected\<close>: the call throws (no answer from the network, or an answer whose status
    is not a success status);
  \<^item> \<open>NullData\<close>: an answer whose \<open>response.data\<close> is null or undefined, so that reading
    \<open>response.data.data\<close> throws;
  \<^item> \<open>Body d l\<close>: any other answer. \<open>d\<close> is \<open>Some xs\<close> when \<open>response.data.data\<close> is
    the array \<open>xs\<close> and \<open>None\<close> when it is anything else, also when \<open>response.data\<close>
    is a string, as it is for an answer whose body is empty or is not JSON; \<open>l\<close> is
    \<open>None\<close> when \<open>response.data.links\<close> is null or undefined (reading \<open>.next\<close>
    throws) and \<open>Some b\<close> otherwise, \<open>b\<close> the truthiness of \<open>links.next\<close>.
\<close>

datatype 'a response =
    Rejected
  | NullData
  | Body "'a list option" "bool option"

text \<open>Every \<open>catch\<close> block of the script ends the process with \<open>process.exit(1)\<close>.\<close>

datatype fatal = Exit1

text \<open>
  The page-fetch capability is a function of the page index (and of the shard index for
  the sharded source); no loop asks for the same page twice, so a function stands for a
  source whose answers change over time as well. Page and shard counters are natural
  numbers. Each loop also keeps the list of the requests it has issued, oldest first. A
  traversal that never stops has the value \<open>None\<close>.
\<close>

partial_function (option) shifts_loop ::
  "(nat \<Rightarrow> 'a response) \<Rightarrow> nat \<Rightarrow> 'a list \<Rightarrow> nat list \<Rightarrow>
     ((fatal + 'a list) \<times> nat list) option" where
  "shifts_loop fetch page allShifts requests =
     (case fetch page of
        Rejected \<Rightarrow> Some (Inl Exit1, requests @ [page])
      | NullData \<Rightarrow> Some (Inl Exit1, requests @ [page])
      | Body d links \<Rightarrow>
          (let shifts = (case d of Some xs \<Rightarrow> xs | None \<Rightarrow> []) in
           if length shifts = 0 then Some (Inr allShifts, requests @ [page])
           else
             (case links of
                None \<Rightarrow> Some (Inl Exit1, requests @ [page])
              | Some hasNextPage \<Rightarrow>
                  if hasNextPage
                  then shifts_loop fetch (page + 1) (allShifts @ shifts) (requests @ [page])
                  else Some (Inr (allShifts @ shifts), requests @ [page]))))"

declare shifts_loop.simps [code]

definition fetchAllShifts ::
  "(nat \<Rightarrow> 'a response) \<Rightarrow> ((fatal + 'a list) \<times> nat list) option" where
  "fetchAllShifts fetch = shifts_loop fetch 1 [] []"

text \<open>
  The inner loop of \<open>fetchAllWorkplaces\<close>, over the pages of one shard. It returns the
  accumulator together with the flag \<open>shardWorkplacesFetched\<close>.
\<close>

partial_function (option) workplaces_pages ::
  "(nat \<Rightarrow> nat \<Rightarrow> 'a response) \<Rightarrow> nat \<Rightarrow> nat \<Rightarrow> bool \<Rightarrow> 'a list \<Rightarrow> (nat \<times> nat) list \<Rightarrow>
     ((fatal + 'a list \<times> bool) \<times> (nat \<times> nat) list) option" where
  "workplaces_pages fetch shard page shardWorkplacesFetched allWorkplaces requests =
     (case fetch shard page of
        Rejected \<Rightarrow> Some (Inl Exit1, requests @ [(shard, page)])
      | NullData \<Rightarrow> Some (Inl Exit1, requests @ [(shard, page)])
      | Body d links \<Rightarrow>
          (let workplaces = (case d of Some xs \<Rightarrow> xs | None \<Rightarrow> []) in
           if length workplaces = 0
           then Some (Inr (allWorkplaces, shardWorkplacesFetched), requests @ [(shard, page)])
           else
             (case links of
                None \<Rightarrow> Some (Inl Exit1, requests @ [(shard, page)])
              | Some hasNextPage \<Rightarrow>
                  if hasNextPage
                  then workplaces_pages fetch shard (page + 1) True
                         (allWorkplaces @ workplaces) (requests @ [(shard, page)])
                  else Some (Inr (allWorkplaces @ workplaces, True),
                             requests @ [(shard, page)]))))"

declare workplaces_pages.simps [code]

text \<open>The outer loop, over the shards.\<close>

partial_function (option) workplaces_shards ::
  "(nat \<Rightarrow> nat \<Rightarrow> 'a response) \<Rightarrow> nat \<Rightarrow> 'a list \<Rightarrow> (nat \<times> nat) list \<Rightarrow>
     ((fatal + 'a list) \<times> (nat \<times> nat) list) option" where
  "workplaces_shards fetch shard allWorkplaces requests =
     (case workplaces_pages fetch shard 1 False allWorkplaces requests of
        None \<Rightarrow> None
      | Some (Inl e, requests') \<Rightarrow> Some (Inl e, requests')
      | Some (Inr (allWorkplaces', shardWorkplacesFetched), requests') \<Rightarrow>
          if \<not> shardWorkplacesFetched then Some (Inr allWorkplaces', requests')
          else workplaces_shards fetch (shard + 1) allWorkplaces' requests')"

declare workplaces_shards.simps [code]

definition fetchAllWorkplaces ::
  "(nat \<Rightarrow> nat \<Rightarrow> 'a response) \<Rightarrow> ((fatal + 'a list) \<times> (nat \<times> nat) list) option" where
  "fetchAllWorkplaces fetch = workplaces_shards fetch 0 [] []"

subsection \<open>How the loops read one response\<close>

text \<open>The items a response contributes: an answer whose data is not an array counts as empty.\<close>

fun items_of :: "'a response \<Rightarrow> 'a list" where
  "items_of (Body (Some xs) l) = xs"
| "items_of r = []"

text \<open>The loop goes on to the next page: a non-empty page with a next link.\<close>

fun continues :: "'a response \<Rightarrow> bool" where
  "continues (Body (Some xs) (Some b)) = (xs \<noteq> [] \<and> b)"
| "continues r = False"

text \<open>An answered page that the loop reads as empty.\<close>

fun empty_page :: "'a response \<Rightarrow> bool" where
  "empty_page (Body None l) = True"
| "empty_page (Body (Some xs) l) = (xs = [])"
| "empty_page r = False"

text \<open>The page loop ends normally: an empty page, or a non-empty page without a next link.\<close>

fun ends :: "'a response \<Rightarrow> bool" where
  "ends (Body None l) = True"
| "ends (Body (Some xs) None) = (xs = [])"
| "ends (Body (Some xs) (Some b)) = (xs = [] \<or> (xs \<noteq> [] \<and> b = False))"
| "ends r = False"

text \<open>The loop body throws, and the \<open>catch\<close> block exits.\<close>

fun aborts :: "'a response \<Rightarrow> bool" where
  "aborts Rejected = True"
| "aborts NullData = True"
| "aborts (Body (Some xs) None) = (xs \<noteq> [])"
| "aborts r = False"

text \<open>
  A response that is not what the listing endpoint promises (an array of items and a
  links object): what the specification calls a transport or protocol failure.
\<close>

fun transport_failure :: "'a response \<Rightarrow> bool" where
  "transport_failure Rejected = True"
| "transport_failure NullData = True"
| "transport_failure (Body None l) = True"
| "transport_failure (Body (Some xs) None) = True"
| "transport_failure (Body (Some xs) (Some b)) = False"

text \<open>
  Page \<open>k\<close> is the last page of shard \<open>s\<close>, reached through pages \<open>1, \<dots>, k - 1\<close>, and
  the shard has given at least one item.
\<close>

definition shard_done :: "(nat \<Rightarrow> nat \<Rightarrow> 'a response) \<Rightarrow> nat \<Rightarrow> nat \<Rightarrow> bool" where
  "shard_done fetch s k \<longleftrightarrow>
     1 \<le> k \<and> (\<forall>p \<in> {1..<k}. continues (fetch s p)) \<and> ends (fetch s k) \<and>
     items_of (fetch s 1) \<noteq> []"

definition shard_items :: "(nat \<Rightarrow> nat \<Rightarrow> 'a response) \<Rightarrow> nat \<Rightarrow> nat \<Rightarrow> 'a list" where
  "shard_items fetch s k = concat (map (\<lambda>p. items_of (fetch s p)) [1..<Suc k])"

definition shard_requests :: "nat \<Rightarrow> nat \<Rightarrow> (nat \<times> nat) list" where
  "shard_requests s k = map (Pair s) [1..<Suc k]"

section \<open>Aggregation: \<open>getTopWorkplaces\<close>\<close>

record Workplace =
  wp_id :: int
  wp_name :: string
  status :: int

text \<open>A shift of the listing; \<open>None\<close> is a null or missing \<open>workplaceId\<close>.\<close>

record Shift =
  shift_id :: int
  workplaceId :: "int option"

record WorkplaceWithShifts =
  name :: string
  shifts :: int

definition activeWorkplaces :: "Workplace list \<Rightarrow> Workplace list" where
  "activeWorkplaces workplaces = filter (\<lambda>wp. status wp = 0) workplaces"

text \<open>\<open>x || 0\<close> for a value read from the counter object.\<close>

fun or_zero :: "int option \<Rightarrow> int" where
  "or_zero None = 0"
| "or_zero (Some c) = (if c \<noteq> 0 then c else 0)"

text \<open>The body of the \<open>forEach\<close>, and the counter object after the whole pass.\<close>

definition count_shift :: "Shift \<Rightarrow> (int \<rightharpoonup> int) \<Rightarrow> (int \<rightharpoonup> int)" where
  "count_shift shift counts =
     (case workplaceId shift of
        None \<Rightarrow> counts
      | Some w \<Rightarrow> if w \<noteq> 0 then counts(w \<mapsto> or_zero (counts w) + 1) else counts)"

definition shiftCounts :: "Shift list \<Rightarrow> (int \<rightharpoonup> int)" where
  "shiftCounts shifts_in = fold count_shift shifts_in Map.empty"

definition workplacesWithShifts :: "Workplace list \<Rightarrow> Shift list \<Rightarrow> WorkplaceWithShifts list" where
  "workplacesWithShifts workplaces shifts_in =
     map (\<lambda>wp. \<lparr>name = wp_name wp, shifts = or_zero (shiftCounts shifts_in (wp_id wp))\<rparr>)
       (activeWorkplaces workplaces)"

text \<open>
  \<open>Array.prototype.sort\<close> with a comparison function. The language fixes the outcome
  for a consistent comparison (ECMAScript 2019: the sort is stable), not the algorithm;
  the model is the stable insertion sort, an element going in front of the first one it
  does not compare greater than.
\<close>

fun insert_by :: "('a \<Rightarrow> 'a \<Rightarrow> int) \<Rightarrow> 'a \<Rightarrow> 'a list \<Rightarrow> 'a list" where
  "insert_by cmp x [] = [x]"
| "insert_by cmp x (y # ys) = (if cmp x y \<le> 0 then x # y # ys else y # insert_by cmp x ys)"

definition Array_sort :: "('a \<Rightarrow> 'a \<Rightarrow> int) \<Rightarrow> 'a list \<Rightarrow> 'a list" where
  "Array_sort cmp xs = foldr (insert_by cmp) xs []"

text \<open>The array after \<open>sort((a, b) => b.shifts - a.shifts)\<close>, and its first three entries.\<close>

definition ranked :: "Workplace list \<Rightarrow> Shift list \<Rightarrow> WorkplaceWithShifts list" where
  "ranked workplaces shifts_in =
     Array_sort (\<lambda>a b. shifts b - shifts a) (workplacesWithShifts workplaces shifts_in)"

definition topWorkplaces :: "Workplace list \<Rightarrow> Shift list \<Rightarrow> WorkplaceWithShifts list" where
  "topWorkplaces workplaces shifts_in = take 3 (ranked workplaces shifts_in)"

definition getTopWorkplaces ::
  "(nat \<Rightarrow> nat \<Rightarrow> Workplace response) \<Rightarrow> (nat \<Rightarrow> Shift response) \<Rightarrow>
     (fatal + WorkplaceWithShifts list) option" where
  "getTopWorkplaces fetchW fetchS =
     (case fetchAllWorkplaces fetchW of
        None \<Rightarrow> None
      | Some (Inl e, rs) \<Rightarrow> Some (Inl e)
      | Some (Inr workplaces, rs) \<Rightarrow>
          (case fetchAllShifts fetchS of
             None \<Rightarrow> None
           | Some (Inl e, rs') \<Rightarrow> Some (Inl e)
           | Some (Inr shifts_in, rs') \<Rightarrow> Some (Inr (topWorkplaces workplaces shifts_in))))"

text \<open>
  The number of shifts that reference a workplace, in the words of the specification:
  the shift records that carry a workplace reference that is neither null nor zero and
  equals the workplace's identifier.
\<close>

definition spec_shift_count :: "Shift list \<Rightarrow> Workplace \<Rightarrow> int" where
  "spec_shift_count shifts_in wp =
     int (length (filter (\<lambda>s. truthy (workplaceId s) \<and> workplaceId s = Some (wp_id wp)) shifts_in))"

section \<open>Example inputs\<close>

text \<open>
  Six workplaces, one of them inactive and one with identifier 0, and nine shifts, one
  without a workplace reference and one with the reference 0.
\<close>

definition example_workplaces :: "Workplace list" where
  "example_workplaces =
     [\<lparr>wp_id = 1, wp_name = ''A'', status = 0\<rparr>, \<lparr>wp_id = 2, wp_name = ''B'', status = 0\<rparr>,
      \<lparr>wp_id = 0, wp_name = ''Z'', status = 0\<rparr>, \<lparr>wp_id = 3, wp_name = ''C'', status = 1\<rparr>,
      \<lparr>wp_id = 4, wp_name = ''D'', status = 0\<rparr>, \<lparr>wp_id = 5, wp_name = ''E'', status = 0\<rparr>]"

definition example_shifts :: "Shift list" where
  "example_shifts =
     [\<lparr>shift_id = 1, workplaceId = Some 1\<rparr>, \<lparr>shift_id = 2, workplaceId = Some 2\<rparr>,
      \<lparr>shift_id = 3, workplaceId = Some 3\<rparr>, \<lparr>shift_id = 4, workplaceId = Some 2\<rparr>,
      \<lparr>shift_id = 5, workplaceId = None\<rparr>, \<lparr>shift_id = 6, workplaceId = Some 0\<rparr>,
      \<lparr>shift_id = 7, workplaceId = Some 4\<rparr>, \<lparr>shift_id = 8, workplaceId = Some 3\<rparr>,
      \<lparr>shift_id = 9, workplaceId = Some 3\<rparr>]"


text \<open>
  A flat source of two pages: ten items and a next link, then three items and no next link.
\<close>

definition two_page_source :: "nat \<Rightarrow> nat response" where
  "two_page_source p =
     (if p = 1 then Body (Some [1, 2, 3, 4, 5, 6, 7, 8, 9, 10]) (Some True)
      else if p = 2 then Body (Some [11, 12, 13]) (Some False)
      else Rejected)"

text \<open>
  A sharded source: shard 0 has items on pages 1 and 2 and an empty page 3, shard 1 is
  empty, shard 2 is not.
\<close>

definition sharded_source :: "nat \<Rightarrow> nat \<Rightarrow> nat response" where
  "sharded_source s p =
     (if s = 0 \<and> p = 1 then Body (Some [1, 2]) (Some True)
      else if s = 0 \<and> p = 2 then Body (Some [3]) (Some True)
      else if s = 0 \<and> p = 3 then Body (Some []) None
      else if s = 1 \<and> p = 1 then Body (Some []) None
      else if s = 2 \<and> p = 1 then Body (Some [9]) (Some False)
      else Rejected)"

text \<open>A flat source whose second answer carries no array and no links.\<close>

definition garbled_source :: "nat \<Rightarrow> nat response" where
  "garbled_source p = (if p = 1 then Body (Some [7]) (Some True) else Body None None)"

text \<open>Sources whose second page fails: a rejected request, and an answer with null data.\<close>

definition failing_source :: "nat \<Rightarrow> nat response" where
  "failing_source p = (if p = 1 then Body (Some [7]) (Some True) else Rejected)"

definition failing_sharded_source :: "nat \<Rightarrow> nat \<Rightarrow> nat response" where
  "failing_sharded_source s p =
     (if s = 0 then Body (Some [7]) (Some False)
      else if p = 1 then Body (Some [8]) (Some True)
      else NullData)"

section \<open>Lifecycle properties\<close>

lemma claim_absent:
  "db i = None \<Longrightarrow> claim db i w = (Inl (NotFoundException (NotFound i)), db)"
  by (simp add: claim_def findUnique_def)

lemma claim_unclaimed:
  "db i = Some row \<Longrightarrow> \<not> truthy (workerId row) \<Longrightarrow>
   claim db i w =
     (Inr (row\<lparr>workerId := Some w, cancelledAt := None\<rparr>),
      db(i \<mapsto> row\<lparr>workerId := Some w, cancelledAt := None\<rparr>))"
  by (simp add: claim_def findUnique_def update_def)

lemma claim_claimed:
  "db i = Some row \<Longrightarrow> truthy (workerId row) \<Longrightarrow>
   claim db i w = (Inl (BadRequestException (AlreadyClaimed i)), db)"
  by (simp add: claim_def findUnique_def)

lemma cancel_claimed:
  "db i = Some row \<Longrightarrow> truthy (workerId row) \<Longrightarrow>
   cancel now db i =
     (Inr (row\<lparr>cancelledAt := Some now, workerId := None\<rparr>),
      db(i \<mapsto> row\<lparr>cancelledAt := Some now, workerId := None\<rparr>))"
  by (simp add: cancel_def findUnique_def update_def)

lemma cancel_unclaimed:
  "db i = Some row \<Longrightarrow> \<not> truthy (workerId row) \<Longrightarrow>
   cancel now db i = (Inl (BadRequestException (NotClaimed i)), db)"
  by (simp add: cancel_def findUnique_def)

text \<open>
  C4. Cancelling a stored shift that has no worker assignment throws the bad-request
  exception saying that the shift is not claimed, and the table is left exactly as it was.
\<close>

theorem cancel_unassigned_rejected:
  "db i = Some row \<Longrightarrow> workerId row = None \<Longrightarrow>
   cancel now db i = (Inl (BadRequestException (NotClaimed i)), db)"
  by (simp add: cancel_unclaimed)

theorem cancel_unassigned_rejected_witness:
  "cancel 1000 [4 \<mapsto> \<lparr>row_id = 4, workerId = None, cancelledAt = None\<rparr>] 4 =
     (Inl (BadRequestException (NotClaimed 4)),
      [4 \<mapsto> \<lparr>row_id = 4, workerId = None, cancelledAt = None\<rparr>])"
  using cancel_unassigned_rejected
    [of "[4 \<mapsto> \<lparr>row_id = 4, workerId = None, cancelledAt = None\<rparr>]" 4
        "\<lparr>row_id = 4, workerId = None, cancelledAt = None\<rparr>" 1000]
  by simp

text \<open>
  Claiming a stored shift whose worker reference is a number other than zero throws the
  bad-request exception and leaves the table as it was.
\<close>

lemma claim_assigned_nonzero_rejected:
  "db i = Some row \<Longrightarrow> workerId row = Some v \<Longrightarrow> v \<noteq> 0 \<Longrightarrow>
   claim db i w = (Inl (BadRequestException (AlreadyClaimed i)), db)"
  by (simp add: claim_claimed)

text \<open>
  C3. A stored shift assigned to worker 0 has a worker assignment, yet \<open>claim\<close> does not
  reject it: the call returns the record with the new worker and the table is changed.
\<close>

theorem claim_on_worker_zero_overwrites:
  "claim [4 \<mapsto> \<lparr>row_id = 4, workerId = Some 0, cancelledAt = None\<rparr>] 4 7 =
     (Inr \<lparr>row_id = 4, workerId = Some 7, cancelledAt = None\<rparr>,
      [4 \<mapsto> \<lparr>row_id = 4, workerId = Some 7, cancelledAt = None\<rparr>])"
  by (simp add: claim_def findUnique_def update_def)

text \<open>
  With a first worker other than zero the round trip on an unclaimed shift succeeds: the
  record returned, which is the record stored, has worker \<open>w2\<close> and no cancellation time.
\<close>

lemma round_trip_nonzero_worker:
  assumes "db i = Some row" and "\<not> truthy (workerId row)" and "w \<noteq> 0"
  shows "claim_cancel_claim now db i w w2 =
     (Inr (row\<lparr>workerId := Some w2, cancelledAt := None\<rparr>),
      db(i \<mapsto> row\<lparr>workerId := Some w2, cancelledAt := None\<rparr>))"
proof -
  let ?r1 = "row\<lparr>workerId := Some w, cancelledAt := None\<rparr>"
  let ?db1 = "db(i \<mapsto> ?r1)"
  let ?r2 = "?r1\<lparr>cancelledAt := Some now, workerId := None\<rparr>"
  let ?db2 = "?db1(i \<mapsto> ?r2)"
  have c1: "claim db i w = (Inr ?r1, ?db1)"
    using assms(1,2) by (rule claim_unclaimed)
  have c2: "cancel now ?db1 i = (Inr ?r2, ?db2)"
    by (rule cancel_claimed) (simp_all add: assms(3))
  have c3: "claim ?db2 i w2 =
      (Inr (?r2\<lparr>workerId := Some w2, cancelledAt := None\<rparr>),
       ?db2(i \<mapsto> ?r2\<lparr>workerId := Some w2, cancelledAt := None\<rparr>))"
    by (rule claim_unclaimed) simp_all
  show ?thesis
    using c3 by (simp add: claim_cancel_claim_def c1 c2)
qed

text \<open>
  C6. With first worker 0 the round trip on an unclaimed shift does not succeed: the claim
  stores worker 0, and the cancel that follows throws, the shift being read as not claimed.
\<close>

theorem round_trip_worker_zero_fails:
  "claim_cancel_claim 1000 [4 \<mapsto> \<lparr>row_id = 4, workerId = None, cancelledAt = None\<rparr>] 4 0 7 =
     (Inl (BadRequestException (NotClaimed 4)),
      [4 \<mapsto> \<lparr>row_id = 4, workerId = Some 0, cancelledAt = None\<rparr>])"
  by (simp add: claim_cancel_claim_def claim_def cancel_def findUnique_def update_def)

text \<open>
  C10. Both checks read the truthiness of the worker field, and \<open>claim\<close> takes any worker
  identifier. For a stored shift whose worker field is 0, \<open>claim\<close> succeeds and overwrites
  the assignment, and \<open>cancel\<close> throws because the shift is not claimed; and claiming an
  unassigned shift for worker 0 succeeds and stores such a record.
\<close>

theorem worker_zero_reads_as_unclaimed:
  "(db i = Some row \<and> workerId row = Some 0 \<longrightarrow>
      claim db i w =
        (Inr (row\<lparr>workerId := Some w, cancelledAt := None\<rparr>),
         db(i \<mapsto> row\<lparr>workerId := Some w, cancelledAt := None\<rparr>)) \<and>
      cancel now db i = (Inl (BadRequestException (NotClaimed i)), db)) \<and>
   (db i = Some row \<and> workerId row = None \<longrightarrow>
      claim db i 0 =
        (Inr (row\<lparr>workerId := Some 0, cancelledAt := None\<rparr>),
         db(i \<mapsto> row\<lparr>workerId := Some 0, cancelledAt := None\<rparr>)))"
  by (simp add: claim_unclaimed cancel_unclaimed)

theorem worker_zero_reads_as_unclaimed_witness:
  "claim [4 \<mapsto> \<lparr>row_id = 4, workerId = Some 0, cancelledAt = Some 5\<rparr>] 4 9 =
     (Inr \<lparr>row_id = 4, workerId = Some 9, cancelledAt = None\<rparr>,
      [4 \<mapsto> \<lparr>row_id = 4, workerId = Some 9, cancelledAt = None\<rparr>]) \<and>
   cancel 1000 [4 \<mapsto> \<lparr>row_id = 4, workerId = Some 0, cancelledAt = Some 5\<rparr>] 4 =
     (Inl (BadRequestException (NotClaimed 4)),
      [4 \<mapsto> \<lparr>row_id = 4, workerId = Some 0, cancelledAt = Some 5\<rparr>]) \<and>
   claim [6 \<mapsto> \<lparr>row_id = 6, workerId = None, cancelledAt = None\<rparr>] 6 0 =
     (Inr \<lparr>row_id = 6, workerId = Some 0, cancelledAt = None\<rparr>,
      [6 \<mapsto> \<lparr>row_id = 6, workerId = Some 0, cancelledAt = None\<rparr>])"
  using worker_zero_reads_as_unclaimed
    [of "[4 \<mapsto> \<lparr>row_id = 4, workerId = Some 0, cancelledAt = Some 5\<rparr>]" 4
        "\<lparr>row_id = 4, workerId = Some 0, cancelledAt = Some 5\<rparr>" 9 1000]
    worker_zero_reads_as_unclaimed
    [of "[6 \<mapsto> \<lparr>row_id = 6, workerId = None, cancelledAt = None\<rparr>]" 6
        "\<lparr>row_id = 6, workerId = None, cancelledAt = None\<rparr>" 0 0]
  by simp

section \<open>Aggregation properties\<close>

lemma or_zero_count_shift:
  "or_zero (count_shift s m w) =
     or_zero (m w) + (if truthy (workplaceId s) \<and> workplaceId s = Some w then 1 else 0)"
  by (cases "workplaceId s") (auto simp: count_shift_def)

lemma or_zero_fold:
  "or_zero (fold count_shift ss m w) =
     or_zero (m w) +
     int (length (filter (\<lambda>s. truthy (workplaceId s) \<and> workplaceId s = Some w) ss))"
proof (induction ss arbitrary: m)
  case Nil
  show ?case by simp
next
  case (Cons s ss)
  have "or_zero (fold count_shift (s # ss) m w) =
      or_zero (fold count_shift ss (count_shift s m) w)"
    by simp
  also have "\<dots> = or_zero (count_shift s m w) +
      int (length (filter (\<lambda>s. truthy (workplaceId s) \<and> workplaceId s = Some w) ss))"
    by (rule Cons.IH)
  finally show ?case
    by (cases "workplaceId s") (auto simp: or_zero_count_shift)
qed

lemma shiftCounts_counts: "or_zero (shiftCounts ss (wp_id wp)) = spec_shift_count ss wp"
  unfolding shiftCounts_def spec_shift_count_def or_zero_fold by simp

lemma workplacesWithShifts_counts:
  "workplacesWithShifts wps ss =
     map (\<lambda>wp. \<lparr>name = wp_name wp, shifts = spec_shift_count ss wp\<rparr>)
       (filter (\<lambda>wp. status wp = 0) wps)"
  by (simp add: workplacesWithShifts_def activeWorkplaces_def shiftCounts_counts
      del: or_zero.simps)


text \<open>For the comparison of the script, the sort is the library's stable sort by key.\<close>

lemma insert_by_insort:
  "insert_by (\<lambda>a b. shifts b - shifts a) x ys = insort_key (\<lambda>e. - shifts e) x ys"
  by (induction ys) auto

lemma Array_sort_sort_key:
  "Array_sort (\<lambda>a b. shifts b - shifts a) xs = sort_key (\<lambda>e. - shifts e) xs"
  unfolding Array_sort_def
  by (induction xs) (simp_all add: insert_by_insort)

lemma ranked_sorted: "sorted_wrt (\<lambda>a b. shifts b \<le> shifts a) (ranked wps ss)"
proof -
  have "sorted (map (\<lambda>e. - shifts e) (ranked wps ss))"
    by (simp add: ranked_def Array_sort_sort_key)
  then show ?thesis
    by (simp add: sorted_wrt_map)
qed

lemma ranked_stable:
  "filter (\<lambda>e. shifts e = c) (ranked wps ss) =
   filter (\<lambda>e. shifts e = c) (workplacesWithShifts wps ss)"
proof -
  have "filter (\<lambda>e. - shifts e = - c)
          (sort_key (\<lambda>e. - shifts e) (workplacesWithShifts wps ss)) =
        filter (\<lambda>e. - shifts e = - c) (workplacesWithShifts wps ss)"
    by (rule sort_key_stable)
  then show ?thesis
    by (simp add: ranked_def Array_sort_sort_key)
qed

lemma ranked_mset: "mset (ranked wps ss) = mset (workplacesWithShifts wps ss)"
  by (simp add: ranked_def Array_sort_sort_key)

lemma set_ranked: "set (ranked wps ss) = set (workplacesWithShifts wps ss)"
  by (simp add: ranked_def Array_sort_sort_key)

lemma set_topWorkplaces: "set (topWorkplaces wps ss) \<subseteq> set (workplacesWithShifts wps ss)"
  using set_take_subset [of 3 "ranked wps ss"] by (simp add: topWorkplaces_def set_ranked)

lemma filter_take_prefix: "prefix (filter P (take n xs)) (filter P xs)"
proof -
  have "filter P xs = filter P (take n xs) @ filter P (drop n xs)"
    by (metis append_take_drop_id filter_append)
  then show ?thesis
    by (simp add: prefix_def)
qed

lemma example_workplacesWithShifts:
  "workplacesWithShifts example_workplaces example_shifts =
     [\<lparr>name = ''A'', shifts = 1\<rparr>, \<lparr>name = ''B'', shifts = 2\<rparr>, \<lparr>name = ''Z'', shifts = 0\<rparr>,
      \<lparr>name = ''D'', shifts = 1\<rparr>, \<lparr>name = ''E'', shifts = 0\<rparr>]"
  by (simp add: workplacesWithShifts_def activeWorkplaces_def shiftCounts_def count_shift_def
      example_workplaces_def example_shifts_def)

lemma example_ranked:
  "ranked example_workplaces example_shifts =
     [\<lparr>name = ''B'', shifts = 2\<rparr>, \<lparr>name = ''A'', shifts = 1\<rparr>, \<lparr>name = ''D'', shifts = 1\<rparr>,
      \<lparr>name = ''Z'', shifts = 0\<rparr>, \<lparr>name = ''E'', shifts = 0\<rparr>]"
  by (simp add: ranked_def Array_sort_def example_workplacesWithShifts)









text \<open>
  C8. The result is computed from the workplaces of status 0 alone: dropping every other
  workplace from the input does not change it, each of its entries is the entry of a
  workplace of status 0, and it is empty when no workplace has status 0.
\<close>

theorem inactive_workplaces_excluded:
  "topWorkplaces wps ss = topWorkplaces (filter (\<lambda>wp. status wp = 0) wps) ss \<and>
   (\<forall>e \<in> set (topWorkplaces wps ss). \<exists>wp \<in> set wps.
      status wp = 0 \<and> name e = wp_name wp \<and> shifts e = spec_shift_count ss wp) \<and>
   ((\<forall>wp \<in> set wps. status wp \<noteq> 0) \<longrightarrow> topWorkplaces wps ss = [])"
proof (intro conjI impI ballI)
  show "topWorkplaces wps ss = topWorkplaces (filter (\<lambda>wp. status wp = 0) wps) ss"
    by (simp add: topWorkplaces_def ranked_def workplacesWithShifts_def activeWorkplaces_def)
  {
    fix e assume "e \<in> set (topWorkplaces wps ss)"
    then have "e \<in> set (workplacesWithShifts wps ss)"
      using set_topWorkplaces by blast
    then show "\<exists>wp \<in> set wps.
        status wp = 0 \<and> name e = wp_name wp \<and> shifts e = spec_shift_count ss wp"
      unfolding workplacesWithShifts_counts by auto
  }
  {
    assume "\<forall>wp \<in> set wps. status wp \<noteq> 0"
    then have "filter (\<lambda>wp. status wp = 0) wps = []"
      by (simp add: filter_empty_conv)
    then show "topWorkplaces wps ss = []"
      by (simp add: topWorkplaces_def ranked_def workplacesWithShifts_def activeWorkplaces_def
          Array_sort_def)
  }
qed

theorem inactive_workplaces_excluded_witness:
  "topWorkplaces example_workplaces example_shifts =
     topWorkplaces (filter (\<lambda>wp. status wp = 0) example_workplaces) example_shifts \<and>
   topWorkplaces [\<lparr>wp_id = 3, wp_name = ''C'', status = 1\<rparr>] example_shifts = []"
proof
  show "topWorkplaces example_workplaces example_shifts =
     topWorkplaces (filter (\<lambda>wp. status wp = 0) example_workplaces) example_shifts"
    by (rule inactive_workplaces_excluded [THEN conjunct1])
  show "topWorkplaces [\<lparr>wp_id = 3, wp_name = ''C'', status = 1\<rparr>] example_shifts = []"
    by (rule inactive_workplaces_excluded [THEN conjunct2, THEN conjunct2, rule_format]) simp
qed

text \<open>
  C9. The sorted array is in descending order of shift count, it is a rearrangement of the
  entries of the active workplaces, and entries of equal count stand in it in the order
  they had before the sort. The result is its first three entries: at most three, in
  descending order, those of any one count being the first of that count in the order of
  the active workplaces.
\<close>

theorem ranking_sorted_stable_top3:
  "sorted_wrt (\<lambda>a b. shifts b \<le> shifts a) (ranked wps ss) \<and>
   mset (ranked wps ss) = mset (workplacesWithShifts wps ss) \<and>
   filter (\<lambda>e. shifts e = c) (ranked wps ss) =
     filter (\<lambda>e. shifts e = c) (workplacesWithShifts wps ss) \<and>
   topWorkplaces wps ss = take 3 (ranked wps ss) \<and>
   length (topWorkplaces wps ss) = min 3 (length (activeWorkplaces wps)) \<and>
   sorted_wrt (\<lambda>a b. shifts b \<le> shifts a) (topWorkplaces wps ss) \<and>
   prefix (filter (\<lambda>e. shifts e = c) (topWorkplaces wps ss))
     (filter (\<lambda>e. shifts e = c) (workplacesWithShifts wps ss))"
proof -
  have len: "length (ranked wps ss) = length (activeWorkplaces wps)"
    by (simp add: ranked_def Array_sort_sort_key workplacesWithShifts_def)
  have "sorted_wrt (\<lambda>a b. shifts b \<le> shifts a) (take 3 (ranked wps ss))"
    using ranked_sorted by (rule sorted_wrt_take)
  moreover have "prefix (filter (\<lambda>e. shifts e = c) (take 3 (ranked wps ss)))
      (filter (\<lambda>e. shifts e = c) (workplacesWithShifts wps ss))"
    using filter_take_prefix [of "\<lambda>e. shifts e = c" 3 "ranked wps ss"]
    by (simp add: ranked_stable)
  ultimately show ?thesis
    by (simp add: ranked_sorted ranked_mset ranked_stable topWorkplaces_def len min.commute)
qed

theorem ranking_sorted_stable_top3_witness:
  "topWorkplaces example_workplaces example_shifts =
     [\<lparr>name = ''B'', shifts = 2\<rparr>, \<lparr>name = ''A'', shifts = 1\<rparr>, \<lparr>name = ''D'', shifts = 1\<rparr>] \<and>
   filter (\<lambda>e. shifts e = 1) (ranked example_workplaces example_shifts) =
     [\<lparr>name = ''A'', shifts = 1\<rparr>, \<lparr>name = ''D'', shifts = 1\<rparr>] \<and>
   filter (\<lambda>e. shifts e = 0) (ranked example_workplaces example_shifts) =
     [\<lparr>name = ''Z'', shifts = 0\<rparr>, \<lparr>name = ''E'', shifts = 0\<rparr>]"
  using ranking_sorted_stable_top3 [of example_workplaces example_shifts 1]
    ranking_sorted_stable_top3 [of example_workplaces example_shifts 0]
  by (simp add: example_workplacesWithShifts example_ranked)

section \<open>Traversal properties\<close>

subsection \<open>One response\<close>

lemma response_cases:
  "continues r \<or> ends r \<or> aborts r"
  by (cases r rule: ends.cases) auto

lemma continues_not_ends: "continues r \<Longrightarrow> \<not> ends r"
  by (cases r rule: ends.cases) auto

lemma continues_not_aborts: "continues r \<Longrightarrow> \<not> aborts r"
  by (cases r rule: ends.cases) auto

lemma ends_not_aborts: "ends r \<Longrightarrow> \<not> aborts r"
  by (cases r rule: ends.cases) auto

lemma continues_items: "continues r \<Longrightarrow> items_of r \<noteq> []"
  by (cases r rule: ends.cases) auto

lemma empty_page_ends: "empty_page r \<longleftrightarrow> ends r \<and> items_of r = []"
  by (cases r rule: ends.cases) auto

subsection \<open>The flat loop\<close>

lemma shifts_loop_continue:
  "continues (f p) \<Longrightarrow>
   shifts_loop f p acc log = shifts_loop f (Suc p) (acc @ items_of (f p)) (log @ [p])"
  by (subst shifts_loop.simps, cases "f p" rule: ends.cases) auto

lemma shifts_loop_end:
  "ends (f p) \<Longrightarrow> shifts_loop f p acc log = Some (Inr (acc @ items_of (f p)), log @ [p])"
  by (subst shifts_loop.simps, cases "f p" rule: ends.cases) auto

lemma shifts_loop_abort:
  "aborts (f p) \<Longrightarrow> shifts_loop f p acc log = Some (Inl Exit1, log @ [p])"
  by (subst shifts_loop.simps, cases "f p" rule: ends.cases) auto

lemma shifts_loop_run:
  assumes "p \<le> k" and "\<forall>q \<in> {p..<k}. continues (f q)"
  shows "shifts_loop f p acc log =
    shifts_loop f k (acc @ concat (map (\<lambda>q. items_of (f q)) [p..<k])) (log @ [p..<k])"
  using assms
proof (induction k rule: dec_induct)
  case base
  show ?case by simp
next
  case (step n)
  then have "shifts_loop f p acc log =
      shifts_loop f n (acc @ concat (map (\<lambda>q. items_of (f q)) [p..<n])) (log @ [p..<n])"
    by simp
  also have "\<dots> = shifts_loop f (Suc n)
      ((acc @ concat (map (\<lambda>q. items_of (f q)) [p..<n])) @ items_of (f n)) ((log @ [p..<n]) @ [n])"
    using step by (intro shifts_loop_continue) simp
  finally show ?case
    using step.hyps by simp
qed

lemma shifts_loop_ends_at:
  assumes "p \<le> k" and "\<forall>q \<in> {p..<k}. continues (f q)" and "ends (f k)"
  shows "shifts_loop f p acc log =
    Some (Inr (acc @ concat (map (\<lambda>q. items_of (f q)) [p..<Suc k])), log @ [p..<Suc k])"
  using assms by (simp add: shifts_loop_run [OF assms(1,2)] shifts_loop_end)

lemma shifts_loop_aborts_at:
  assumes "p \<le> k" and "\<forall>q \<in> {p..<k}. continues (f q)" and "aborts (f k)"
  shows "shifts_loop f p acc log = Some (Inl Exit1, log @ [p..<Suc k])"
  using assms by (simp add: shifts_loop_run [OF assms(1,2)] shifts_loop_abort)

lemma shifts_loop_stops:
  "shifts_loop f p acc log = Some y \<Longrightarrow> \<exists>k\<ge>p. \<not> continues (f k)"
proof (induction rule: shifts_loop.raw_induct [rotated 1, consumes 1])
  case (1 loop f p acc log y)
  show ?case
  proof (cases "continues (f p)")
    case False
    then show ?thesis by blast
  next
    case True
    then have "loop f (p + 1) (acc @ items_of (f p)) (log @ [p]) = Some y"
      using 1(2) by (cases "f p" rule: ends.cases) auto
    then have "\<exists>k\<ge>p + 1. \<not> continues (f k)"
      by (rule 1(1))
    then show ?thesis
      by (meson add_leD1)
  qed
qed

lemma first_stop:
  assumes "\<exists>k\<ge>p. \<not> continues ((g::nat \<Rightarrow> 'a response) k)"
  shows "\<exists>k\<ge>p. (\<forall>q \<in> {p..<k}. continues (g q)) \<and> \<not> continues (g k)"
proof -
  define k where "k = (LEAST k. p \<le> k \<and> \<not> continues (g k))"
  have "p \<le> k \<and> \<not> continues (g k)"
    unfolding k_def using assms by (rule LeastI_ex)
  moreover have "continues (g q)" if "q \<in> {p..<k}" for q
    using that not_less_Least [of q "\<lambda>k. p \<le> k \<and> \<not> continues (g k)"]
    by (auto simp: k_def)
  ultimately show ?thesis by blast
qed

lemma shifts_loop_outcome:
  "shifts_loop f p acc log = Some (r, log') \<longleftrightarrow>
     (\<exists>k\<ge>p. (\<forall>q \<in> {p..<k}. continues (f q)) \<and> log' = log @ [p..<Suc k] \<and>
        (ends (f k) \<and> r = Inr (acc @ concat (map (\<lambda>q. items_of (f q)) [p..<Suc k])) \<or>
         aborts (f k) \<and> r = Inl Exit1))"
  (is "?L \<longleftrightarrow> ?R")
proof
  assume L: ?L
  then obtain k where k: "p \<le> k" "\<forall>q \<in> {p..<k}. continues (f q)" "\<not> continues (f k)"
    using first_stop [OF shifts_loop_stops [OF L]] by blast
  from k(3) response_cases [of "f k"] consider "ends (f k)" | "aborts (f k)" by blast
  then show ?R
  proof cases
    case 1
    from shifts_loop_ends_at [OF k(1,2) 1, of acc log] L k 1 show ?thesis
      by (intro exI [of _ k]) simp
  next
    case 2
    from shifts_loop_aborts_at [OF k(1,2) 2, of acc log] L k 2 show ?thesis
      by (intro exI [of _ k]) simp
  qed
next
  assume ?R
  then show ?L
    using shifts_loop_ends_at shifts_loop_aborts_at by blast
qed

text \<open>A source whose every page is non-empty with a next link is traversed for ever.\<close>

lemma shifts_loop_diverges:
  assumes "\<forall>q\<ge>p. continues (f q)"
  shows "shifts_loop f p acc log = None"
proof (cases "shifts_loop f p acc log")
  case None
  then show ?thesis .
next
  case (Some y)
  then have "\<exists>k\<ge>p. \<not> continues (f k)"
    by (rule shifts_loop_stops)
  with assms show ?thesis by blast
qed

subsection \<open>The page loop and the shard loop\<close>

lemma workplaces_pages_continue:
  "continues (f s p) \<Longrightarrow>
   workplaces_pages f s p b acc log =
     workplaces_pages f s (Suc p) True (acc @ items_of (f s p)) (log @ [(s, p)])"
  by (subst workplaces_pages.simps, cases "f s p" rule: ends.cases) auto

lemma workplaces_pages_end:
  "ends (f s p) \<Longrightarrow>
   workplaces_pages f s p b acc log =
     Some (Inr (acc @ items_of (f s p), b \<or> items_of (f s p) \<noteq> []), log @ [(s, p)])"
  by (subst workplaces_pages.simps, cases "f s p" rule: ends.cases) auto

lemma workplaces_pages_abort:
  "aborts (f s p) \<Longrightarrow> workplaces_pages f s p b acc log = Some (Inl Exit1, log @ [(s, p)])"
  by (subst workplaces_pages.simps, cases "f s p" rule: ends.cases) auto

lemma workplaces_pages_run:
  assumes "p \<le> k" and "\<forall>q \<in> {p..<k}. continues (f s q)"
  shows "workplaces_pages f s p b acc log =
    workplaces_pages f s k (b \<or> p < k)
      (acc @ concat (map (\<lambda>q. items_of (f s q)) [p..<k])) (log @ map (Pair s) [p..<k])"
  using assms
proof (induction k rule: dec_induct)
  case base
  show ?case by simp
next
  case (step n)
  then have "workplaces_pages f s p b acc log =
      workplaces_pages f s n (b \<or> p < n)
        (acc @ concat (map (\<lambda>q. items_of (f s q)) [p..<n])) (log @ map (Pair s) [p..<n])"
    by simp
  also have "\<dots> = workplaces_pages f s (Suc n) True
      ((acc @ concat (map (\<lambda>q. items_of (f s q)) [p..<n])) @ items_of (f s n))
      ((log @ map (Pair s) [p..<n]) @ [(s, n)])"
    using step by (intro workplaces_pages_continue) simp
  finally show ?case
    using step.hyps by simp
qed

lemma workplaces_pages_stops:
  "workplaces_pages f s p b acc log = Some y \<Longrightarrow> \<exists>k\<ge>p. \<not> continues (f s k)"
proof (induction rule: workplaces_pages.raw_induct [rotated 1, consumes 1])
  case (1 loop f s p b acc log y)
  show ?case
  proof (cases "continues (f s p)")
    case False
    then show ?thesis by blast
  next
    case True
    then have "loop f s (p + 1) True (acc @ items_of (f s p)) (log @ [(s, p)]) = Some y"
      using 1(2) by (cases "f s p" rule: ends.cases) auto
    then have "\<exists>k\<ge>p + 1. \<not> continues (f s k)"
      by (rule 1(1))
    then show ?thesis
      by (meson add_leD1)
  qed
qed

lemma shard_done_pages:
  assumes "shard_done f s k"
  shows "workplaces_pages f s 1 False acc log =
    Some (Inr (acc @ shard_items f s k, True), log @ shard_requests s k)"
proof -
  from assms have k: "1 \<le> k" "\<forall>q \<in> {1..<k}. continues (f s q)" "ends (f s k)"
    and first: "items_of (f s 1) \<noteq> []"
    by (simp_all add: shard_done_def)
  have flag: "1 < k \<or> items_of (f s k) \<noteq> []"
    using k(1) first by (cases "k = 1") auto
  let ?acc = "acc @ concat (map (\<lambda>q. items_of (f s q)) [1..<k])"
  let ?log = "log @ map (Pair s) [1..<k]"
  have "workplaces_pages f s 1 False acc log = workplaces_pages f s k (False \<or> 1 < k) ?acc ?log"
    by (rule workplaces_pages_run [of 1 k f s, OF k(1,2)])
  also have "\<dots> = Some (Inr (?acc @ items_of (f s k),
      (False \<or> 1 < k) \<or> items_of (f s k) \<noteq> []), ?log @ [(s, k)])"
    by (rule workplaces_pages_end [of f s k, OF k(3)])
  also have "\<dots> = Some (Inr (acc @ shard_items f s k, True), log @ shard_requests s k)"
    using k(1) flag by (simp add: shard_items_def shard_requests_def)
  finally show ?thesis .
qed

lemma empty_page_pages:
  assumes "empty_page (f s 1)"
  shows "workplaces_pages f s 1 False acc log = Some (Inr (acc, False), log @ [(s, 1)])"
proof -
  from assms have e: "ends (f s 1)" and i: "items_of (f s 1) = []"
    by (simp_all add: empty_page_ends)
  have "workplaces_pages f s 1 False acc log =
      Some (Inr (acc @ items_of (f s 1), False \<or> items_of (f s 1) \<noteq> []), log @ [(s, 1)])"
    by (rule workplaces_pages_end [of f s 1, OF e])
  then show ?thesis
    unfolding i by simp
qed

lemma aborting_pages:
  assumes "1 \<le> k" and "\<forall>q \<in> {1..<k}. continues (f s q)" and "aborts (f s k)"
  shows "workplaces_pages f s 1 False acc log = Some (Inl Exit1, log @ shard_requests s k)"
proof -
  let ?acc = "acc @ concat (map (\<lambda>q. items_of (f s q)) [1..<k])"
  let ?log = "log @ map (Pair s) [1..<k]"
  have "workplaces_pages f s 1 False acc log = workplaces_pages f s k (False \<or> 1 < k) ?acc ?log"
    by (rule workplaces_pages_run [of 1 k f s, OF assms(1,2)])
  also have "\<dots> = Some (Inl Exit1, ?log @ [(s, k)])"
    by (rule workplaces_pages_abort [of f s k, OF assms(3)])
  also have "\<dots> = Some (Inl Exit1, log @ shard_requests s k)"
    using assms(1) by (simp add: shard_requests_def)
  finally show ?thesis .
qed

text \<open>What the page loop of a shard can end with.\<close>

lemma pages_outcome:
  assumes "workplaces_pages f s 1 False acc log = Some y"
  shows "(\<exists>k. shard_done f s k) \<or> empty_page (f s 1) \<or>
         (\<exists>k\<ge>1. (\<forall>q \<in> {1..<k}. continues (f s q)) \<and> aborts (f s k))"
proof -
  obtain k where k: "1 \<le> k" "\<forall>q \<in> {1..<k}. continues (f s q)" "\<not> continues (f s k)"
    using first_stop [OF workplaces_pages_stops [OF assms]] by blast
  from k(3) response_cases [of "f s k"] consider "ends (f s k)" | "aborts (f s k)" by blast
  then show ?thesis
  proof cases
    case 1
    show ?thesis
    proof (cases "items_of (f s 1) = []")
      case True
      have "k = 1"
      proof (rule ccontr)
        assume "k \<noteq> 1"
        then have "continues (f s 1)" using k(1,2) by simp
        then show False using True by (simp add: continues_items)
      qed
      then show ?thesis using 1 True by (simp add: empty_page_ends)
    next
      case False
      then have "shard_done f s k"
        using k 1 by (simp add: shard_done_def)
      then show ?thesis by blast
    qed
  next
    case 2
    then show ?thesis using k by blast
  qed
qed

lemma shard_done_not_empty: "shard_done f s k \<Longrightarrow> \<not> empty_page (f s 1)"
  by (simp add: shard_done_def empty_page_ends)

lemma workplaces_shards_step:
  "shard_done f s k \<Longrightarrow>
   workplaces_shards f s acc log =
     workplaces_shards f (Suc s) (acc @ shard_items f s k) (log @ shard_requests s k)"
  by (subst workplaces_shards.simps)
    (simp add: shard_done_pages Suc_eq_plus1 [symmetric] del: One_nat_def)

lemma workplaces_shards_stop:
  "empty_page (f n 1) \<Longrightarrow> workplaces_shards f n acc log = Some (Inr acc, log @ [(n, 1)])"
  by (subst workplaces_shards.simps) (simp add: empty_page_pages del: One_nat_def)

lemma workplaces_shards_abort:
  assumes "1 \<le> k" and "\<forall>q \<in> {1..<k}. continues (f n q)" and "aborts (f n k)"
  shows "workplaces_shards f n acc log = Some (Inl Exit1, log @ shard_requests n k)"
  by (subst workplaces_shards.simps)
    (simp add: aborting_pages [of k f n, OF assms] del: One_nat_def)

lemma workplaces_shards_run:
  assumes "s \<le> n" and "\<forall>t \<in> {s..<n}. shard_done f t (K t)"
  shows "workplaces_shards f s acc log =
    workplaces_shards f n (acc @ concat (map (\<lambda>t. shard_items f t (K t)) [s..<n]))
      (log @ concat (map (\<lambda>t. shard_requests t (K t)) [s..<n]))"
  using assms
proof (induction n rule: dec_induct)
  case base
  show ?case by simp
next
  case (step n)
  then have "workplaces_shards f s acc log =
      workplaces_shards f n (acc @ concat (map (\<lambda>t. shard_items f t (K t)) [s..<n]))
        (log @ concat (map (\<lambda>t. shard_requests t (K t)) [s..<n]))"
    by simp
  also have "\<dots> = workplaces_shards f (Suc n)
      ((acc @ concat (map (\<lambda>t. shard_items f t (K t)) [s..<n])) @ shard_items f n (K n))
      ((log @ concat (map (\<lambda>t. shard_requests t (K t)) [s..<n])) @ shard_requests n (K n))"
    using step by (intro workplaces_shards_step) simp
  finally show ?case
    using step.hyps by simp
qed

lemma workplaces_shards_stops:
  "workplaces_shards f s acc log = Some y \<Longrightarrow> \<exists>n\<ge>s. \<not> (\<exists>k. shard_done f n k)"
proof (induction rule: workplaces_shards.raw_induct [rotated 1, consumes 1])
  case (1 loop f s acc log y)
  show ?case
  proof (cases "\<exists>k. shard_done f s k")
    case False
    then show ?thesis by blast
  next
    case True
    then obtain k where "shard_done f s k" ..
    then have "loop f (s + 1) (acc @ shard_items f s k) (log @ shard_requests s k) = Some y"
      using 1(2) by (simp add: shard_done_pages del: One_nat_def)
    then have "\<exists>n\<ge>s + 1. \<not> (\<exists>k. shard_done f n k)"
      by (rule 1(1))
    then show ?thesis
      by (meson add_leD1)
  qed
qed

lemma first_open_shard:
  assumes "\<exists>n\<ge>s. \<not> (\<exists>k. shard_done f n k)"
  shows "\<exists>n\<ge>s. \<exists>K. (\<forall>t \<in> {s..<n}. shard_done f t (K t)) \<and> \<not> (\<exists>k. shard_done f n k)"
proof -
  define n where "n = (LEAST n. s \<le> n \<and> \<not> (\<exists>k. shard_done f n k))"
  have n: "s \<le> n \<and> \<not> (\<exists>k. shard_done f n k)"
    unfolding n_def using assms by (rule LeastI_ex)
  have "\<exists>k. shard_done f t k" if "t \<in> {s..<n}" for t
    using that not_less_Least [of t "\<lambda>n. s \<le> n \<and> \<not> (\<exists>k. shard_done f n k)"]
    by (auto simp: n_def)
  then have "\<exists>K. \<forall>t \<in> {s..<n}. shard_done f t (K t)"
    by (intro bchoice) blast
  with n show ?thesis by blast
qed

lemma workplaces_shards_outcome:
  "workplaces_shards f s acc log = Some (r, log') \<longleftrightarrow>
     (\<exists>n K. s \<le> n \<and> (\<forall>t \<in> {s..<n}. shard_done f t (K t)) \<and>
        (empty_page (f n 1) \<and>
           r = Inr (acc @ concat (map (\<lambda>t. shard_items f t (K t)) [s..<n])) \<and>
           log' = (log @ concat (map (\<lambda>t. shard_requests t (K t)) [s..<n])) @ [(n, 1)] \<or>
         1 \<le> K n \<and> (\<forall>q \<in> {1..<K n}. continues (f n q)) \<and> aborts (f n (K n)) \<and>
           r = Inl Exit1 \<and>
           log' = (log @ concat (map (\<lambda>t. shard_requests t (K t)) [s..<n])) @
                    shard_requests n (K n)))"
  (is "?L \<longleftrightarrow> (\<exists>n K. ?R n K)")
proof
  assume L: ?L
  obtain n K where n: "s \<le> n" "\<forall>t \<in> {s..<n}. shard_done f t (K t)"
    and open_n: "\<not> (\<exists>k. shard_done f n k)"
    using first_open_shard [OF workplaces_shards_stops [OF L]] by blast
  let ?acc = "acc @ concat (map (\<lambda>t. shard_items f t (K t)) [s..<n])"
  let ?log = "log @ concat (map (\<lambda>t. shard_requests t (K t)) [s..<n])"
  have at_n: "workplaces_shards f n ?acc ?log = Some (r, log')"
    using L by (simp add: workplaces_shards_run [OF n])
  then obtain y where "workplaces_pages f n 1 False ?acc ?log = Some y"
    by (subst (asm) workplaces_shards.simps) (auto split: option.splits)
  from pages_outcome [OF this] open_n
  consider "empty_page (f n 1)"
    | k where "1 \<le> k" "\<forall>q \<in> {1..<k}. continues (f n q)" "aborts (f n k)"
    by blast
  then show "\<exists>n K. ?R n K"
  proof cases
    case 1
    have "workplaces_shards f n ?acc ?log = Some (Inr ?acc, ?log @ [(n, 1)])"
      using 1 by (rule workplaces_shards_stop)
    with at_n have "r = Inr ?acc \<and> log' = ?log @ [(n, 1)]"
      by simp
    with 1 n have "?R n K"
      by simp
    then show ?thesis by (intro exI)
  next
    case 2
    let ?K = "K(n := k)"
    have Kn: "?K n = k"
      by simp
    have items: "map (\<lambda>t. shard_items f t (?K t)) [s..<n] =
        map (\<lambda>t. shard_items f t (K t)) [s..<n]"
      by (rule map_cong) simp_all
    have requests: "map (\<lambda>t. shard_requests t (?K t)) [s..<n] =
        map (\<lambda>t. shard_requests t (K t)) [s..<n]"
      by (rule map_cong) simp_all
    have all_done: "(\<forall>t \<in> {s..<n}. shard_done f t (?K t)) \<longleftrightarrow>
        (\<forall>t \<in> {s..<n}. shard_done f t (K t))"
      by simp
    have "workplaces_shards f n ?acc ?log = Some (Inl Exit1, ?log @ shard_requests n k)"
      using 2 by (rule workplaces_shards_abort [of k f n])
    with at_n have "r = Inl Exit1 \<and> log' = ?log @ shard_requests n k"
      by simp
    with 2 n have "?R n ?K"
      unfolding Kn items requests all_done by simp
    then show ?thesis by (intro exI)
  qed
next
  assume "\<exists>n K. ?R n K"
  then obtain n K where R: "?R n K" by (elim exE)
  then have n: "s \<le> n" "\<forall>t \<in> {s..<n}. shard_done f t (K t)"
    by simp_all
  let ?acc = "acc @ concat (map (\<lambda>t. shard_items f t (K t)) [s..<n])"
  let ?log = "log @ concat (map (\<lambda>t. shard_requests t (K t)) [s..<n])"
  have run: "workplaces_shards f s acc log = workplaces_shards f n ?acc ?log"
    by (rule workplaces_shards_run [OF n])
  from R consider
      "empty_page (f n 1)" "r = Inr ?acc" "log' = ?log @ [(n, 1)]"
    | "1 \<le> K n" "\<forall>q \<in> {1..<K n}. continues (f n q)" "aborts (f n (K n))"
      "r = Inl Exit1" "log' = ?log @ shard_requests n (K n)"
    by blast
  then show ?L
  proof cases
    case 1
    have "workplaces_shards f n ?acc ?log = Some (Inr ?acc, ?log @ [(n, 1)])"
      using 1(1) by (rule workplaces_shards_stop)
    then show ?thesis
      unfolding run 1(2,3) .
  next
    case 2
    have "workplaces_shards f n ?acc ?log = Some (Inl Exit1, ?log @ shard_requests n (K n))"
      using 2(1,2,3) by (rule workplaces_shards_abort [of "K n" f n])
    then show ?thesis
      unfolding run 2(4,5) .
  qed
qed

subsection \<open>Whole traversals\<close>

lemma shard_requests_no_abort:
  assumes "shard_done f t k" and "(s, q) \<in> set (shard_requests t k)"
  shows "\<not> aborts (f s q)"
proof -
  from assms(2) have sq: "s = t" "1 \<le> q" "q \<le> k"
    by (auto simp: shard_requests_def)
  show ?thesis
  proof (cases "q = k")
    case True
    with assms(1) sq show ?thesis
      by (simp add: shard_done_def ends_not_aborts)
  next
    case False
    with sq have "q \<in> {1..<k}" by simp
    with assms(1) have "continues (f t q)"
      by (simp add: shard_done_def)
    with sq show ?thesis
      by (simp add: continues_not_aborts)
  qed
qed

lemma shards_requests_no_abort:
  assumes "\<forall>t \<in> {s0..<n}. shard_done f t (K t)"
    and "(s, q) \<in> set (concat (map (\<lambda>t. shard_requests t (K t)) [s0..<n]))"
  shows "\<not> aborts (f s q) \<and> s < n"
proof -
  from assms(2) obtain t where t: "t \<in> {s0..<n}" "(s, q) \<in> set (shard_requests t (K t))"
    by auto
  then have "s = t"
    by (auto simp: shard_requests_def)
  with t assms(1) show ?thesis
    using shard_requests_no_abort [of f t "K t" s q] by simp
qed

lemma last_shard_requests: "1 \<le> k \<Longrightarrow> last (xs @ shard_requests s k) = (s, k)"
  by (simp add: shard_requests_def)

lemma fetchAllShifts_abort_is_fatal:
  assumes "fetchAllShifts fetch = Some (r, log)" and "p \<in> set log" and "aborts (fetch p)"
  shows "r = Inl Exit1 \<and> p = last log"
proof -
  from assms(1) obtain k where k: "1 \<le> k" "\<forall>q \<in> {1..<k}. continues (fetch q)"
    "log = [1..<Suc k]"
    and alt: "ends (fetch k) \<or> aborts (fetch k) \<and> r = Inl Exit1"
    unfolding fetchAllShifts_def shifts_loop_outcome by auto
  from assms(2) k(1,3) have p: "1 \<le> p" "p \<le> k" by auto
  have "p = k"
  proof (rule ccontr)
    assume "p \<noteq> k"
    with p have "p \<in> {1..<k}" by simp
    with k(2) have "continues (fetch p)" by blast
    with assms(3) show False by (simp add: continues_not_aborts)
  qed
  with alt assms(3) k(1,3) show ?thesis
    by (auto simp: ends_not_aborts)
qed

lemma fetchAllShifts_aborts_at:
  assumes "1 \<le> k" and "\<forall>q \<in> {1..<k}. continues (fetch q)" and "aborts (fetch k)"
  shows "fetchAllShifts fetch = Some (Inl Exit1, [1..<Suc k])"
  using shifts_loop_aborts_at [OF assms, of "[]" "[]"] by (simp add: fetchAllShifts_def)

lemma fetchAllWorkplaces_outcome:
  "fetchAllWorkplaces f = Some (r, log) \<longleftrightarrow>
     (\<exists>n K. (\<forall>t \<in> {0..<n}. shard_done f t (K t)) \<and>
        (empty_page (f n 1) \<and>
           r = Inr (concat (map (\<lambda>t. shard_items f t (K t)) [0..<n])) \<and>
           log = concat (map (\<lambda>t. shard_requests t (K t)) [0..<n]) @ [(n, 1)] \<or>
         1 \<le> K n \<and> (\<forall>q \<in> {1..<K n}. continues (f n q)) \<and> aborts (f n (K n)) \<and>
           r = Inl Exit1 \<and>
           log = concat (map (\<lambda>t. shard_requests t (K t)) [0..<n]) @ shard_requests n (K n)))"
  unfolding fetchAllWorkplaces_def workplaces_shards_outcome by simp

lemma fetchAllWorkplaces_abort_is_fatal:
  assumes "fetchAllWorkplaces f = Some (r, log)" and "(s, q) \<in> set log" and "aborts (f s q)"
  shows "r = Inl Exit1 \<and> (s, q) = last log"
proof -
  from assms(1) obtain n K where done_before: "\<forall>t \<in> {0..<n}. shard_done f t (K t)"
    and alt: "empty_page (f n 1) \<and>
           r = Inr (concat (map (\<lambda>t. shard_items f t (K t)) [0..<n])) \<and>
           log = concat (map (\<lambda>t. shard_requests t (K t)) [0..<n]) @ [(n, 1)] \<or>
         1 \<le> K n \<and> (\<forall>q \<in> {1..<K n}. continues (f n q)) \<and> aborts (f n (K n)) \<and>
           r = Inl Exit1 \<and>
           log = concat (map (\<lambda>t. shard_requests t (K t)) [0..<n]) @ shard_requests n (K n)"
    unfolding fetchAllWorkplaces_outcome by (elim exE conjE)
  let ?before = "concat (map (\<lambda>t. shard_requests t (K t)) [0..<n])"
  have not_before: "(s, q) \<notin> set ?before"
    using shards_requests_no_abort [OF done_before, of s q] assms(3) by blast
  from alt show ?thesis
  proof (elim disjE conjE)
    assume e: "empty_page (f n 1)" and log: "log = ?before @ [(n, 1)]"
    from assms(2) not_before log have "(s, q) = (n, 1)" by simp
    with e assms(3) show ?thesis
      by (simp add: empty_page_ends ends_not_aborts)
  next
    assume k: "1 \<le> K n" "\<forall>q \<in> {1..<K n}. continues (f n q)" and r: "r = Inl Exit1"
      and log: "log = ?before @ shard_requests n (K n)"
    from assms(2) not_before log have sq: "s = n" "1 \<le> q" "q \<le> K n"
      by (auto simp: shard_requests_def)
    have "q = K n"
    proof (rule ccontr)
      assume "q \<noteq> K n"
      with sq have "q \<in> {1..<K n}" by simp
      with k(2) have "continues (f n q)" by blast
      with assms(3) sq show False by (simp add: continues_not_aborts)
    qed
    with sq r log k(1) show ?thesis
      by (simp add: last_shard_requests)
  qed
qed

lemma fetchAllWorkplaces_aborts_at:
  assumes "\<forall>t \<in> {0..<n}. shard_done f t (K t)" and "1 \<le> K n"
    and "\<forall>q \<in> {1..<K n}. continues (f n q)" and "aborts (f n (K n))"
  shows "fetchAllWorkplaces f =
    Some (Inl Exit1, concat (map (\<lambda>t. shard_requests t (K t)) [0..<Suc n]))"
proof -
  have "fetchAllWorkplaces f = Some (Inl Exit1,
      concat (map (\<lambda>t. shard_requests t (K t)) [0..<n]) @ shard_requests n (K n))"
    unfolding fetchAllWorkplaces_outcome using assms by blast
  then show ?thesis by simp
qed

lemma fetchAllWorkplaces_stops_at_gap:
  assumes "fetchAllWorkplaces f = Some (r, log)" and "empty_page (f m 1)" and "(s, q) \<in> set log"
  shows "s \<le> m"
proof -
  from assms(1) obtain n K where done_before: "\<forall>t \<in> {0..<n}. shard_done f t (K t)"
    and log: "log = concat (map (\<lambda>t. shard_requests t (K t)) [0..<n]) @ [(n, 1)] \<or>
           log = concat (map (\<lambda>t. shard_requests t (K t)) [0..<n]) @ shard_requests n (K n)"
    unfolding fetchAllWorkplaces_outcome by blast
  have "n \<le> m"
  proof (rule ccontr)
    assume "\<not> n \<le> m"
    then have "m \<in> {0..<n}" by simp
    with done_before have "shard_done f m (K m)" by blast
    with assms(2) show False using shard_done_not_empty by blast
  qed
  moreover have "s \<le> n"
    using log assms(3) shards_requests_no_abort [OF done_before, of s q]
    by (auto simp: shard_requests_def)
  ultimately show ?thesis by simp
qed

text \<open>
  C2. The flat traversal returns normally exactly when some page \<open>k\<close> is the first one
  that is empty or has no next link, every page before it being a non-empty page with a
  next link; it then returns the items of pages \<open>1, \<dots>, k\<close> in page order, and the
  requests it has issued are those for the pages \<open>1, \<dots>, k\<close>, in this order, once each.
  Whatever the outcome, the requests issued are those for \<open>1, \<dots>, k\<close> for some \<open>k\<close>.
\<close>

theorem fetchAllShifts_result:
  "(fetchAllShifts fetch = Some (Inr xs, log) \<longleftrightarrow>
     (\<exists>k\<ge>1. (\<forall>q \<in> {1..<k}. continues (fetch q)) \<and> ends (fetch k) \<and>
        xs = concat (map (\<lambda>q. items_of (fetch q)) [1..<Suc k]) \<and> log = [1..<Suc k])) \<and>
   (fetchAllShifts fetch = Some (r, log) \<longrightarrow> (\<exists>k\<ge>1. log = [1..<Suc k]))"
proof
  have "fetchAllShifts fetch = Some (Inr xs, log) \<longleftrightarrow>
     (\<exists>k\<ge>1. (\<forall>q \<in> {1..<k}. continues (fetch q)) \<and> log = [] @ [1..<Suc k] \<and>
        (ends (fetch k) \<and> Inr xs = (Inr ([] @ concat (map (\<lambda>q. items_of (fetch q)) [1..<Suc k])) :: fatal + 'a list) \<or>
         aborts (fetch k) \<and> (Inr xs :: fatal + 'a list) = Inl Exit1))"
    unfolding fetchAllShifts_def by (rule shifts_loop_outcome)
  then show "fetchAllShifts fetch = Some (Inr xs, log) \<longleftrightarrow>
     (\<exists>k\<ge>1. (\<forall>q \<in> {1..<k}. continues (fetch q)) \<and> ends (fetch k) \<and>
        xs = concat (map (\<lambda>q. items_of (fetch q)) [1..<Suc k]) \<and> log = [1..<Suc k])"
    by (simp del: One_nat_def upt_Suc) blast
  show "fetchAllShifts fetch = Some (r, log) \<longrightarrow> (\<exists>k\<ge>1. log = [1..<Suc k])"
    unfolding fetchAllShifts_def shifts_loop_outcome by (simp del: One_nat_def upt_Suc) blast
qed


theorem fetchAllShifts_result_witness:
  "fetchAllShifts two_page_source =
     Some (Inr [1, 2, 3, 4, 5, 6, 7, 8, 9, 10, 11, 12, 13], [1, 2])"
proof -
  have "\<exists>k\<ge>1. (\<forall>q \<in> {1..<k}. continues (two_page_source q)) \<and> ends (two_page_source k) \<and>
      [1, 2, 3, 4, 5, 6, 7, 8, 9, 10, 11, 12, 13] =
        concat (map (\<lambda>q. items_of (two_page_source q)) [1..<Suc k]) \<and>
      [1, 2] = [1..<Suc k]"
    by (rule exI [of _ 2]) (simp add: two_page_source_def upt_rec)
  then show ?thesis
    by (rule fetchAllShifts_result [THEN conjunct1, THEN iffD2])
qed

text \<open>
  C1. The sharded traversal returns normally exactly when some shard \<open>n\<close> has an empty
  first page while every shard before it has given items and has come to its last page
  \<open>K s\<close>. It then returns the items of the shards \<open>0, \<dots>, n - 1\<close> in shard order, page
  order and in-page order, and the requests it has issued are the pages \<open>1, \<dots>, K s\<close> of
  each of these shards in turn, followed by page 1 of shard \<open>n\<close> and nothing else.
  Whatever the outcome, no request is issued for a shard beyond one whose first page is
  empty.
\<close>

theorem fetchAllWorkplaces_result:
  "(fetchAllWorkplaces fetch = Some (Inr ws, log) \<longleftrightarrow>
     (\<exists>n K. (\<forall>s \<in> {0..<n}. shard_done fetch s (K s)) \<and> empty_page (fetch n 1) \<and>
        ws = concat (map (\<lambda>s. shard_items fetch s (K s)) [0..<n]) \<and>
        log = concat (map (\<lambda>s. shard_requests s (K s)) [0..<n]) @ [(n, 1)])) \<and>
   (fetchAllWorkplaces fetch = Some (r, log) \<and> empty_page (fetch m 1) \<and> (s, q) \<in> set log \<longrightarrow>
      s \<le> m)"
proof
  show "fetchAllWorkplaces fetch = Some (Inr ws, log) \<longleftrightarrow>
     (\<exists>n K. (\<forall>s \<in> {0..<n}. shard_done fetch s (K s)) \<and> empty_page (fetch n 1) \<and>
        ws = concat (map (\<lambda>s. shard_items fetch s (K s)) [0..<n]) \<and>
        log = concat (map (\<lambda>s. shard_requests s (K s)) [0..<n]) @ [(n, 1)])"
    unfolding fetchAllWorkplaces_outcome by (simp del: One_nat_def)
  show "fetchAllWorkplaces fetch = Some (r, log) \<and> empty_page (fetch m 1) \<and> (s, q) \<in> set log \<longrightarrow>
      s \<le> m"
    using fetchAllWorkplaces_stops_at_gap [of fetch r log m s q] by blast
qed

theorem fetchAllWorkplaces_result_witness:
  "fetchAllWorkplaces sharded_source = Some (Inr [1, 2, 3], [(0, 1), (0, 2), (0, 3), (1, 1)]) \<and>
   items_of (sharded_source 2 1) = [9]"
proof
  have two: "{1..<3::nat} = {1, 2}"
    by auto
  have "shard_done sharded_source 0 3"
    by (simp add: shard_done_def sharded_source_def two)
  then have "\<forall>s \<in> {0..<1}. shard_done sharded_source s ((\<lambda>s. 3) s)"
    by simp
  moreover have "empty_page (sharded_source 1 1)"
    by (simp add: sharded_source_def)
  moreover have "[1, 2, 3] = concat (map (\<lambda>s. shard_items sharded_source s ((\<lambda>s. 3) s)) [0..<1])"
    by (simp add: shard_items_def sharded_source_def upt_rec)
  moreover have "[(0, 1), (0, 2), (0, 3), (1, 1)] =
      concat (map (\<lambda>s. shard_requests s ((\<lambda>s. 3) s)) [0..<1]) @ [(1, 1)]"
    by (simp add: shard_requests_def upt_rec)
  ultimately have "\<exists>n K. (\<forall>s \<in> {0..<n}. shard_done sharded_source s (K s)) \<and>
      empty_page (sharded_source n 1) \<and>
      [1, 2, 3] = concat (map (\<lambda>s. shard_items sharded_source s (K s)) [0..<n]) \<and>
      [(0, 1), (0, 2), (0, 3), (1, 1)] =
        concat (map (\<lambda>s. shard_requests s (K s)) [0..<n]) @ [(n, 1)]"
    by (intro exI [of _ 1] exI [of _ "\<lambda>s. 3"] conjI)
  then show "fetchAllWorkplaces sharded_source =
      Some (Inr [1, 2, 3], [(0, 1), (0, 2), (0, 3), (1, 1)])"
    by (rule fetchAllWorkplaces_result [THEN conjunct1, THEN iffD2])
  show "items_of (sharded_source 2 1) = [9]"
    by (simp add: sharded_source_def)
qed

lemma shifts_loop_not_array:
  "fetch p = Body None l \<Longrightarrow> shifts_loop fetch p acc log = Some (Inr acc, log @ [p])"
  using shifts_loop_end [of fetch p acc log] by simp

lemma workplaces_pages_not_array:
  "fetch s p = Body None l \<Longrightarrow>
   workplaces_pages fetch s p b acc log = Some (Inr (acc, b), log @ [(s, p)])"
  using workplaces_pages_end [of fetch s p b acc log] by simp

lemma aborts_iff:
  "aborts r \<longleftrightarrow> r = Rejected \<or> r = NullData \<or> (\<exists>xs. xs \<noteq> [] \<and> r = Body (Some xs) None)"
  by (cases r rule: ends.cases) auto

lemma fetchAllShifts_exit_is_abort:
  assumes "fetchAllShifts fetch = Some (Inl e, log)"
  shows "log \<noteq> [] \<and> aborts (fetch (last log))"
proof -
  from assms obtain k where "1 \<le> k" "log = [1..<Suc k]" "aborts (fetch k)"
    unfolding fetchAllShifts_def shifts_loop_outcome by auto
  then show ?thesis by simp
qed

lemma fetchAllWorkplaces_exit_is_abort:
  assumes "fetchAllWorkplaces f = Some (Inl e, log)"
  shows "log \<noteq> [] \<and> aborts (case_prod f (last log))"
proof -
  from assms obtain n K where k: "1 \<le> K n" "aborts (f n (K n))"
    and log: "log = concat (map (\<lambda>t. shard_requests t (K t)) [0..<n]) @ shard_requests n (K n)"
    unfolding fetchAllWorkplaces_outcome by auto
  from k(1) have "shard_requests n (K n) \<noteq> []"
    by (simp add: shard_requests_def)
  moreover have "last log = (n, K n)"
    unfolding log using k(1) by (rule last_shard_requests)
  ultimately show ?thesis
    using k(2) log by simp
qed

text \<open>
  C5, as amended. The loop body throws, and the traversal ends with \<open>process.exit(1)\<close>,
  when the request is rejected, when \<open>response.data\<close> is null or undefined, and when a
  non-empty page has no links object. The failing request is then the last one issued
  and no result is returned; a traversal that comes to such a page does end so, and a
  traversal ends so for no other reason. This holds for the flat and for the sharded
  traversal. Any other malformed answer is not a failure to the code: an answer whose
  data is not an array, as is every answer with an empty or a non-JSON body, is read as
  an empty page, and the loop ends normally with what it has accumulated.
\<close>

theorem page_failure_is_fatal:
  "(fetchAllShifts fetch = Some (r, log) \<and> p \<in> set log \<and> aborts (fetch p) \<longrightarrow>
      r = Inl Exit1 \<and> p = last log) \<and>
   (1 \<le> k \<and> (\<forall>q \<in> {1..<k}. continues (fetch q)) \<and> aborts (fetch k) \<longrightarrow>
      fetchAllShifts fetch = Some (Inl Exit1, [1..<Suc k])) \<and>
   (fetchAllWorkplaces fetchW = Some (r', log') \<and> (s, q) \<in> set log' \<and> aborts (fetchW s q) \<longrightarrow>
      r' = Inl Exit1 \<and> (s, q) = last log') \<and>
   ((\<forall>t \<in> {0..<n}. shard_done fetchW t (K t)) \<and> 1 \<le> K n \<and>
    (\<forall>q \<in> {1..<K n}. continues (fetchW n q)) \<and> aborts (fetchW n (K n)) \<longrightarrow>
      fetchAllWorkplaces fetchW =
        Some (Inl Exit1, concat (map (\<lambda>t. shard_requests t (K t)) [0..<Suc n]))) \<and>
   (fetch p = Body None l \<longrightarrow>
      shifts_loop fetch p acc reqs = Some (Inr acc, reqs @ [p])) \<and>
   (fetchW s q = Body None l \<longrightarrow>
      workplaces_pages fetchW s q b accW reqsW = Some (Inr (accW, b), reqsW @ [(s, q)])) \<and>
   (fetchAllShifts fetch = Some (Inl e, log) \<longrightarrow> log \<noteq> [] \<and> aborts (fetch (last log))) \<and>
   (fetchAllWorkplaces fetchW = Some (Inl e', log') \<longrightarrow>
      log' \<noteq> [] \<and> aborts (case_prod fetchW (last log'))) \<and>
   (aborts x \<longleftrightarrow>
      x = Rejected \<or> x = NullData \<or> (\<exists>xs. xs \<noteq> [] \<and> x = Body (Some xs) None))"
proof (intro conjI impI)
  show "r = Inl Exit1"
    if "fetchAllShifts fetch = Some (r, log) \<and> p \<in> set log \<and> aborts (fetch p)"
    using that fetchAllShifts_abort_is_fatal [of fetch r log p] by blast
  show "p = last log"
    if "fetchAllShifts fetch = Some (r, log) \<and> p \<in> set log \<and> aborts (fetch p)"
    using that fetchAllShifts_abort_is_fatal [of fetch r log p] by blast
  show "fetchAllShifts fetch = Some (Inl Exit1, [1..<Suc k])"
    if "1 \<le> k \<and> (\<forall>q \<in> {1..<k}. continues (fetch q)) \<and> aborts (fetch k)"
    using that fetchAllShifts_aborts_at [of k fetch] by blast
  show "r' = Inl Exit1"
    if "fetchAllWorkplaces fetchW = Some (r', log') \<and> (s, q) \<in> set log' \<and> aborts (fetchW s q)"
    using that fetchAllWorkplaces_abort_is_fatal [of fetchW r' log' s q] by blast
  show "(s, q) = last log'"
    if "fetchAllWorkplaces fetchW = Some (r', log') \<and> (s, q) \<in> set log' \<and> aborts (fetchW s q)"
    using that fetchAllWorkplaces_abort_is_fatal [of fetchW r' log' s q] by blast
  show "fetchAllWorkplaces fetchW =
        Some (Inl Exit1, concat (map (\<lambda>t. shard_requests t (K t)) [0..<Suc n]))"
    if "(\<forall>t \<in> {0..<n}. shard_done fetchW t (K t)) \<and> 1 \<le> K n \<and>
      (\<forall>q \<in> {1..<K n}. continues (fetchW n q)) \<and> aborts (fetchW n (K n))"
    using that fetchAllWorkplaces_aborts_at [of n fetchW K] by blast
  show "shifts_loop fetch p acc reqs = Some (Inr acc, reqs @ [p])" if "fetch p = Body None l"
    using that by (rule shifts_loop_not_array)
  show "workplaces_pages fetchW s q b accW reqsW = Some (Inr (accW, b), reqsW @ [(s, q)])"
    if "fetchW s q = Body None l"
    using that by (rule workplaces_pages_not_array)
  show "log \<noteq> []" if "fetchAllShifts fetch = Some (Inl e, log)"
    using that fetchAllShifts_exit_is_abort [of fetch e log] by blast
  show "aborts (fetch (last log))" if "fetchAllShifts fetch = Some (Inl e, log)"
    using that fetchAllShifts_exit_is_abort [of fetch e log] by blast
  show "log' \<noteq> []" if "fetchAllWorkplaces fetchW = Some (Inl e', log')"
    using that fetchAllWorkplaces_exit_is_abort [of fetchW e' log'] by blast
  show "aborts (case_prod fetchW (last log'))" if "fetchAllWorkplaces fetchW = Some (Inl e', log')"
    using that fetchAllWorkplaces_exit_is_abort [of fetchW e' log'] by blast
  show "aborts x \<longleftrightarrow>
      x = Rejected \<or> x = NullData \<or> (\<exists>xs. xs \<noteq> [] \<and> x = Body (Some xs) None)"
    by (rule aborts_iff)
qed

theorem page_failure_is_fatal_witness:
  "fetchAllShifts failing_source = Some (Inl Exit1, [1, 2]) \<and>
   fetchAllWorkplaces failing_sharded_source = Some (Inl Exit1, [(0, 1), (1, 1), (1, 2)])"
proof
  note inst = page_failure_is_fatal
    [where fetch = failing_source and k = 2 and fetchW = failing_sharded_source and n = 1
       and K = "\<lambda>t. Suc t"]
  have one: "{1..<2::nat} = {1}"
    by auto
  have "1 \<le> (2::nat) \<and> (\<forall>q \<in> {1..<2}. continues (failing_source q)) \<and>
      aborts (failing_source 2)"
    by (simp add: failing_source_def one)
  then have "fetchAllShifts failing_source = Some (Inl Exit1, [1..<Suc 2])"
    by (rule inst [THEN conjunct2, THEN conjunct1, THEN mp])
  then show "fetchAllShifts failing_source = Some (Inl Exit1, [1, 2])"
    by (simp add: upt_rec)
  have "(\<forall>t \<in> {0..<1}. shard_done failing_sharded_source t (Suc t)) \<and> 1 \<le> Suc 1 \<and>
      (\<forall>q \<in> {1..<Suc 1}. continues (failing_sharded_source 1 q)) \<and>
      aborts (failing_sharded_source 1 (Suc 1))"
    by (simp add: failing_sharded_source_def shard_done_def)
  then have "fetchAllWorkplaces failing_sharded_source =
      Some (Inl Exit1, concat (map (\<lambda>t. shard_requests t (Suc t)) [0..<Suc 1]))"
    by (rule inst [THEN conjunct2, THEN conjunct2, THEN conjunct2, THEN conjunct1, THEN mp])
  then show "fetchAllWorkplaces failing_sharded_source =
      Some (Inl Exit1, [(0, 1), (1, 1), (1, 2)])"
    by (simp add: shard_requests_def upt_rec)
qed

text \<open>
  C5, as stated, fails: the second answer of this source is malformed (no array, no
  links), and the traversal returns the items of the first page as its result.
\<close>

theorem garbled_page_ends_traversal_normally:
  "transport_failure (garbled_source 2) \<and>
   fetchAllShifts garbled_source = Some (Inr [7], [1, 2])"
  by (simp add: fetchAllShifts_def shifts_loop.simps garbled_source_def)

text \<open>When both traversals return, the script's result is the ranking of what they returned.\<close>

lemma getTopWorkplaces_result:
  assumes "fetchAllWorkplaces fetchW = Some (Inr ws, log)"
    and "fetchAllShifts fetchS = Some (Inr ss, log')"
  shows "getTopWorkplaces fetchW fetchS = Some (Inr (topWorkplaces ws ss))"
  using assms by (simp add: getTopWorkplaces_def)

end
